theory Spec2Isabelle
  imports Complex_Main
begin

section \<open>Data model of \<open>mo_hbo_utils.py\<close>\<close>

text \<open>
  A Python dict whose iteration order matters is an association list in insertion
  order (its keys are pairwise different). The objective spec maps an objective name to
  a direction string. A result record \<open>res_dict\<close> is only ever read by key, so it is a
  map. The training history maps a task id to the sequence of its result records.

  Floats are idealised: a finite float is a real and the arithmetic on finite values is
  exact, but the special values are kept, with the IEEE rules numpy follows (no
  exception on a division by zero, \<open>0/0 = nan\<close>, \<open>x/0 = \<plusminus>inf\<close>, \<open>inf * 0 = nan\<close>; every
  comparison with \<open>nan\<close> is false). An objective value of the history is any float.
\<close>

datatype npfloat = Fin real | PosInf | NegInf | NaN

text \<open>\<open>a <= b\<close> and \<open>a < b\<close> on floats.\<close>

fun np_le :: "npfloat \<Rightarrow> npfloat \<Rightarrow> bool" where
  "np_le NaN b = False"
| "np_le a NaN = False"
| "np_le NegInf b = True"
| "np_le a PosInf = True"
| "np_le (Fin x) (Fin y) = (x \<le> y)"
| "np_le a b = False"

fun np_lt :: "npfloat \<Rightarrow> npfloat \<Rightarrow> bool" where
  "np_lt NaN b = False"
| "np_lt a NaN = False"
| "np_lt PosInf b = False"
| "np_lt a NegInf = False"
| "np_lt (Fin x) (Fin y) = (x < y)"
| "np_lt a b = True"

text \<open>The product of a float and a finite float.\<close>

fun np_times :: "npfloat \<Rightarrow> real \<Rightarrow> npfloat" where
  "np_times (Fin x) s = Fin (x * s)"
| "np_times NaN s = NaN"
| "np_times PosInf s = (if s = 0 then NaN else if 0 < s then PosInf else NegInf)"
| "np_times NegInf s = (if s = 0 then NaN else if 0 < s then NegInf else PosInf)"

type_synonym objectives = "(string \<times> string) list"
type_synonym res_dict = "string \<rightharpoonup> npfloat"
type_synonym training_history = "(string \<times> res_dict list) list"

text \<open>The exceptions the three functions can raise.\<close>

datatype error =
    KeyError string
  | ValueError_conversion
  | ValueError_broadcast
  | IndexError
  | AssertionError

section \<open>\<open>prepare_sign_vector\<close>\<close>

text \<open>\<open>converter = {"MIN": -1.0, "MAX": 1.0}\<close>; a lookup of any other key raises.\<close>

definition converter :: "string \<Rightarrow> real option" where
  "converter s = (if s = ''MIN'' then Some (- 1) else if s = ''MAX'' then Some 1 else None)"

text \<open>
  \<open>[converter[objectives[k]] for k in objectives]\<close>: the comprehension walks the keys
  of the dict in order and reads each key's own value, that is, it walks the items.
  The first failing lookup leaves the comprehension with a \<open>KeyError\<close>.
\<close>

fun convert_all :: "objectives \<Rightarrow> real list option" where
  "convert_all [] = Some []"
| "convert_all ((k, v) # objs) =
     (case converter v of
        None \<Rightarrow> None
      | Some s \<Rightarrow> (case convert_all objs of None \<Rightarrow> None | Some ss \<Rightarrow> Some (s # ss)))"

text \<open>The \<open>try\<close>/\<open>except KeyError\<close> turns the failure into the \<open>ValueError\<close>.\<close>

definition prepare_sign_vector :: "objectives \<Rightarrow> error + real list" where
  "prepare_sign_vector objs =
     (case convert_all objs of None \<Rightarrow> Inl ValueError_conversion | Some sv \<Rightarrow> Inr sv)"

text \<open>The sign an objective of a recognised direction is given.\<close>

definition sign_of :: "string \<Rightarrow> real" where
  "sign_of v = (if v = ''MIN'' then - 1 else 1)"

definition recognised :: "string \<Rightarrow> bool" where
  "recognised v = (v = ''MIN'' \<or> v = ''MAX'')"

section \<open>\<open>retrieve_pareto_front\<close>\<close>

subsection \<open>Flattening the history (lines 27 to 34)\<close>

text \<open>
  \<open>[res_dict[k] for k in objectives]\<close>: the values of a record in the order of the
  objective spec; a record without one of the keys raises \<open>KeyError\<close>.
\<close>

fun row_of :: "res_dict \<Rightarrow> objectives \<Rightarrow> error + npfloat list" where
  "row_of res_dict [] = Inr []"
| "row_of res_dict ((k, d) # objs) =
     (case res_dict k of
        None \<Rightarrow> Inl (KeyError k)
      | Some v \<Rightarrow> (case row_of res_dict objs of Inl e \<Rightarrow> Inl e | Inr vs \<Rightarrow> Inr (v # vs)))"

text \<open>
  A point is a row of \<open>vals\<close> together with the entry of \<open>refs\<close> at the same index.
  The inner loop \<open>for step, res_dict in enumerate(task_res)\<close> appends one point per
  record, with the reference \<open>(task_id, step + 1)\<close>.
\<close>

type_synonym ref = "string \<times> nat"
type_synonym point = "npfloat list \<times> ref"

fun task_points :: "objectives \<Rightarrow> string \<Rightarrow> nat \<Rightarrow> res_dict list \<Rightarrow> error + point list" where
  "task_points objs task_id step [] = Inr []"
| "task_points objs task_id step (res_dict # rest) =
     (case row_of res_dict objs of
        Inl e \<Rightarrow> Inl e
      | Inr row \<Rightarrow>
          (case task_points objs task_id (Suc step) rest of
             Inl e \<Rightarrow> Inl e
           | Inr ps \<Rightarrow> Inr ((row, (task_id, step + 1)) # ps)))"

text \<open>The outer loop \<open>for task_id, task_res in training_history.items()\<close>.\<close>

fun flatten_history :: "objectives \<Rightarrow> training_history \<Rightarrow> error + point list" where
  "flatten_history objs [] = Inr []"
| "flatten_history objs ((task_id, task_res) # h) =
     (case task_points objs task_id 0 task_res of
        Inl e \<Rightarrow> Inl e
      | Inr ps \<Rightarrow> (case flatten_history objs h of Inl e \<Rightarrow> Inl e | Inr qs \<Rightarrow> Inr (ps @ qs)))"

subsection \<open>Sign normalisation (lines 38 and 39)\<close>

text \<open>
  \<open>vals * (-sign_vector)\<close>. With at least one point, \<open>vals\<close> has shape \<open>(n, d)\<close> and the
  vector of shape \<open>(d,)\<close> is multiplied into every row. With no point, \<open>np.array([])\<close>
  has shape \<open>(0,)\<close>, which numpy broadcasts against \<open>(d,)\<close> only for \<open>d \<le> 1\<close> (the
  product is empty); for \<open>d \<ge> 2\<close> the multiplication raises \<open>ValueError\<close>
  (operands could not be broadcast together).
\<close>

definition multiply_row :: "real list \<Rightarrow> npfloat list \<Rightarrow> npfloat list" where
  "multiply_row w row = map (\<lambda>(x, s). np_times x s) (zip row w)"

definition np_multiply :: "npfloat list list \<Rightarrow> real list \<Rightarrow> error + npfloat list list" where
  "np_multiply vals w =
     (if vals = [] \<and> 2 \<le> length w then Inl ValueError_broadcast
      else Inr (map (multiply_row w) vals))"

subsection \<open>The masking loop (lines 40 to 44)\<close>

text \<open>
  \<open>np.any(p <= c)\<close> for one row \<open>p\<close> of \<open>a_vals\<close>; a column in which either value is
  \<open>nan\<close> compares false.
\<close>

definition any_le :: "npfloat list \<Rightarrow> npfloat list \<Rightarrow> bool" where
  "any_le p c = list_ex (\<lambda>(x, y). np_le x y) (zip p c)"

text \<open>
  \<open>eff_mask[eff_mask] = np.any(a_vals[eff_mask] <= c, axis=1)\<close>: an entry that is set
  stays set when its row is \<open>\<le> c\<close> in some column; an entry that is cleared stays
  cleared.
\<close>

definition prune :: "npfloat list list \<Rightarrow> npfloat list \<Rightarrow> bool list \<Rightarrow> bool list" where
  "prune a_vals c eff_mask = map (\<lambda>(b, p). b \<and> any_le p c) (zip eff_mask a_vals)"

text \<open>
  \<open>for i, c in enumerate(a_vals): if eff_mask[i]: ...\<close>, over a list of indices of
  rows; the source runs it over \<open>0, ..., n - 1\<close> in this order (\<open>efficient_mask\<close>
  below).
\<close>

fun mask_loop :: "npfloat list list \<Rightarrow> nat list \<Rightarrow> bool list \<Rightarrow> bool list" where
  "mask_loop a_vals [] eff_mask = eff_mask"
| "mask_loop a_vals (i # js) eff_mask =
     mask_loop a_vals js
       (if eff_mask ! i then prune a_vals (a_vals ! i) eff_mask else eff_mask)"

definition efficient_mask :: "npfloat list list \<Rightarrow> bool list" where
  "efficient_mask a_vals =
     mask_loop a_vals [0..<length a_vals] (replicate (length a_vals) True)"

text \<open>\<open>indices = [i for i, b in enumerate(eff_mask) if b]\<close>\<close>

definition efficient_indices :: "npfloat list list \<Rightarrow> nat list" where
  "efficient_indices a_vals =
     filter (\<lambda>i. efficient_mask a_vals ! i) [0..<length a_vals]"

subsection \<open>The emitted records (lines 46 to 52)\<close>

text \<open>
  A record of the front is a dict in insertion order whose values are a reference or a
  number. \<open>r[k] = v\<close> replaces the value of a key that is present and appends a new key.
\<close>

datatype entry = Ref ref | Val npfloat

type_synonym front_record = "(string \<times> entry) list"

fun dict_set :: "('k \<times> 'v) list \<Rightarrow> 'k \<Rightarrow> 'v \<Rightarrow> ('k \<times> 'v) list" where
  "dict_set [] k v = [(k, v)]"
| "dict_set ((k', v') # r) k v =
     (if k' = k then (k', v) # r else (k', v') # dict_set r k v)"

text \<open>
  \<open>for i, o in enumerate(objectives): r[o] = vals[e][i]\<close>. A row of \<open>vals\<close> has one
  value per objective, so the index is in range.
\<close>

fun fill_record :: "front_record \<Rightarrow> npfloat list \<Rightarrow> nat \<Rightarrow> objectives \<Rightarrow> front_record" where
  "fill_record r row i [] = r"
| "fill_record r row i ((o_name, d) # objs) =
     fill_record (dict_set r o_name (Val (row ! i))) row (Suc i) objs"

definition front_record_of :: "objectives \<Rightarrow> point \<Rightarrow> front_record" where
  "front_record_of objs p =
     fill_record [(''task_id-ressource'', Ref (snd p))] (fst p) 0 objs"

subsection \<open>The function\<close>

text \<open>
  Lines 27 to 44: the points in flattening order and the value of \<open>indices\<close>. The
  history is flattened before the sign vector is built, so a missing key is reported
  before an unrecognised direction.
\<close>

definition pareto_indices :: "training_history \<Rightarrow> objectives \<Rightarrow> error + (point list \<times> nat list)" where
  "pareto_indices h objs =
     (case flatten_history objs h of
        Inl e \<Rightarrow> Inl e
      | Inr pts \<Rightarrow>
          (case prepare_sign_vector objs of
             Inl e \<Rightarrow> Inl e
           | Inr sign_vector \<Rightarrow>
               (case np_multiply (map fst pts) (map uminus sign_vector) of
                  Inl e \<Rightarrow> Inl e
                | Inr a_vals \<Rightarrow> Inr (pts, efficient_indices a_vals))))"

definition retrieve_pareto_front :: "training_history \<Rightarrow> objectives \<Rightarrow> error + front_record list" where
  "retrieve_pareto_front h objs =
     (case pareto_indices h objs of
        Inl e \<Rightarrow> Inl e
      | Inr (pts, indices) \<Rightarrow> Inr (map (\<lambda>e. front_record_of objs (pts ! e)) indices))"

subsection \<open>Dominance, in the words of the specification\<close>

text \<open>
  On rows in the minimisation convention (the rows of \<open>a_vals\<close>): \<open>q\<close> is strictly
  smaller than \<open>p\<close> when it is smaller in every objective, and \<open>q\<close> dominates \<open>p\<close> when
  it is no worse in every objective and strictly better in at least one.
\<close>

definition strictly_smaller :: "npfloat list \<Rightarrow> npfloat list \<Rightarrow> bool" where
  "strictly_smaller q p = list_all2 np_lt q p"

definition dominates :: "npfloat list \<Rightarrow> npfloat list \<Rightarrow> bool" where
  "dominates q p = (list_all2 np_le q p \<and> list_ex (\<lambda>(x, y). np_lt x y) (zip q p))"

text \<open>A row without \<open>nan\<close>.\<close>

definition nan_free :: "npfloat list \<Rightarrow> bool" where
  "nan_free row = list_all (\<lambda>x. x \<noteq> NaN) row"

text \<open>
  The order-independent filter: the indices of the points that no other point is
  strictly smaller than in every objective.
\<close>

definition strong_dominance_filter :: "npfloat list list \<Rightarrow> nat list" where
  "strong_dominance_filter a_vals =
     filter
       (\<lambda>p. \<not> list_ex (\<lambda>q. q \<noteq> p \<and> strictly_smaller (a_vals ! q) (a_vals ! p))
                 [0..<length a_vals])
       [0..<length a_vals]"

section \<open>\<open>uniform_from_unit_simplex\<close>\<close>

text \<open>
  The random source is made explicit: the function is given \<open>draws\<close>, the values that
  \<open>np.random.uniform(size=dim)\<close> returns (\<open>dim\<close> values from the half-open interval
  \<open>[0, 1)\<close>), so \<open>dim\<close> is the length of \<open>draws\<close>.
\<close>

definition np_divide :: "real \<Rightarrow> real \<Rightarrow> npfloat" where
  "np_divide x y =
     (if y \<noteq> 0 then Fin (x / y)
      else if x = 0 then NaN
      else if 0 < x then PosInf
      else NegInf)"

fun np_add :: "npfloat \<Rightarrow> npfloat \<Rightarrow> npfloat" where
  "np_add (Fin x) (Fin y) = Fin (x + y)"
| "np_add NaN b = NaN"
| "np_add a NaN = NaN"
| "np_add PosInf NegInf = NaN"
| "np_add NegInf PosInf = NaN"
| "np_add PosInf b = PosInf"
| "np_add a PosInf = PosInf"
| "np_add NegInf b = NegInf"
| "np_add a NegInf = NegInf"

text \<open>\<open>np.diff(uni, prepend=prev)\<close>: the gaps between neighbours, the first from \<open>prev\<close>.\<close>

fun np_diff :: "real \<Rightarrow> real list \<Rightarrow> real list" where
  "np_diff prev [] = []"
| "np_diff prev (x # xs) = (x - prev) # np_diff x xs"

text \<open>Python's \<open>sum(sample)\<close> adds the entries from the left, starting at \<open>0\<close>.\<close>

definition py_sum :: "npfloat list \<Rightarrow> npfloat" where
  "py_sum sample = foldl np_add (Fin 0) sample"

text \<open>The asserted expression \<open>sum(sample) - 1 < 1e-6\<close>, as a function of the sum.\<close>

fun below_tolerance :: "npfloat \<Rightarrow> bool" where
  "below_tolerance (Fin s) = (s - 1 < 1 / 10 ^ 6)"
| "below_tolerance NegInf = True"
| "below_tolerance PosInf = False"
| "below_tolerance NaN = False"

definition sample_check :: "npfloat list \<Rightarrow> bool" where
  "sample_check sample = below_tolerance (py_sum sample)"

text \<open>Lines 98 and 99: \<open>uni = np.sort(uni)\<close>, \<open>sample = np.diff(uni, prepend=0) / uni[-1]\<close>.\<close>

definition simplex_sample :: "real list \<Rightarrow> npfloat list" where
  "simplex_sample draws =
     (let uni = sort draws in map (\<lambda>g. np_divide g (last uni)) (np_diff 0 uni))"

text \<open>
  The function: \<open>uni[-1]\<close> on an empty array raises \<open>IndexError\<close>; a failing \<open>assert\<close>
  raises \<open>AssertionError\<close>.
\<close>

definition uniform_from_unit_simplex :: "real list \<Rightarrow> error + npfloat list" where
  "uniform_from_unit_simplex draws =
     (if draws = [] then Inl IndexError
      else if sample_check (simplex_sample draws) then Inr (simplex_sample draws)
      else Inl AssertionError)"


section \<open>Properties of the sign-vector builder\<close>

lemma convert_all_recognised:
  "list_all (\<lambda>kv. recognised (snd kv)) objs \<Longrightarrow>
   convert_all objs = Some (map (\<lambda>kv. sign_of (snd kv)) objs)"
  by (induction objs rule: convert_all.induct)
     (auto simp: converter_def recognised_def sign_of_def)

lemma convert_all_None_iff:
  "convert_all objs = None \<longleftrightarrow> list_ex (\<lambda>kv. \<not> recognised (snd kv)) objs"
  by (induction objs rule: convert_all.induct)
     (auto simp: converter_def recognised_def split: option.splits)

lemma prepare_sign_vector_recognised:
  "list_all (\<lambda>kv. recognised (snd kv)) objs \<Longrightarrow>
   prepare_sign_vector objs = Inr (map (\<lambda>kv. sign_of (snd kv)) objs)"
  by (simp add: prepare_sign_vector_def convert_all_recognised)

text \<open>
  C4. For an objective spec whose directions are all exactly "MIN" or "MAX", the
  sign-vector builder returns a vector with one entry per objective, in the order of
  the spec, whose entry is exactly -1.0 for an objective marked "MIN" and +1.0 for an
  objective marked "MAX".
\<close>

theorem sign_vector_length_order_entries:
  assumes "list_all (\<lambda>kv. snd kv = ''MIN'' \<or> snd kv = ''MAX'') objs"
  shows "\<exists>sv. prepare_sign_vector objs = Inr sv \<and> length sv = length objs \<and>
           list_all2 (\<lambda>kv s. (snd kv = ''MIN'' \<and> s = - 1) \<or> (snd kv = ''MAX'' \<and> s = 1)) objs sv"
proof -
  from assms have r: "list_all (\<lambda>kv. recognised (snd kv)) objs"
    by (simp add: recognised_def)
  have "list_all2 (\<lambda>kv s. (snd kv = ''MIN'' \<and> s = - 1) \<or> (snd kv = ''MAX'' \<and> s = 1))
          objs (map (\<lambda>kv. sign_of (snd kv)) objs)"
    using assms by (induction objs) (auto simp: sign_of_def)
  with prepare_sign_vector_recognised [OF r] show ?thesis by simp
qed

theorem sign_vector_length_order_entries_witness:
  "prepare_sign_vector [(''acc'', ''MAX''), (''latency'', ''MIN'')] = Inr [1, - 1]"
  using sign_vector_length_order_entries [of "[(''acc'', ''MAX''), (''latency'', ''MIN'')]"]
  by (auto simp: list_all2_Cons1)

text \<open>
  C5. The sign-vector builder fails with the invalid-direction error exactly when some
  direction value is not one of the exact strings "MIN" and "MAX"; a failure is the
  error alone, with no partial vector, and a spec with only the two recognised literals
  yields a vector.
\<close>

theorem sign_vector_error_iff:
  "(prepare_sign_vector objs = Inl ValueError_conversion \<longleftrightarrow>
      list_ex (\<lambda>kv. snd kv \<noteq> ''MIN'' \<and> snd kv \<noteq> ''MAX'') objs) \<and>
   ((\<exists>sv. prepare_sign_vector objs = Inr sv) \<longleftrightarrow>
      list_all (\<lambda>kv. snd kv = ''MIN'' \<or> snd kv = ''MAX'') objs)"
proof -
  have a: "convert_all objs = None \<longleftrightarrow> list_ex (\<lambda>kv. snd kv \<noteq> ''MIN'' \<and> snd kv \<noteq> ''MAX'') objs"
    by (simp add: convert_all_None_iff recognised_def)
  have b: "list_all (\<lambda>kv. snd kv = ''MIN'' \<or> snd kv = ''MAX'') objs \<longleftrightarrow>
           \<not> list_ex (\<lambda>kv. snd kv \<noteq> ''MIN'' \<and> snd kv \<noteq> ''MAX'') objs"
    by (auto simp: list_all_iff list_ex_iff)
  show ?thesis
    unfolding b using a by (auto simp: prepare_sign_vector_def split: option.splits)
qed

theorem sign_vector_error_iff_witness:
  "prepare_sign_vector [(''acc'', ''MAX''), (''latency'', ''min'')] = Inl ValueError_conversion \<and>
   prepare_sign_vector [(''acc'', ''MAX''), (''latency'', ''MIN'')] \<noteq> Inl ValueError_conversion"
  using sign_vector_error_iff [of "[(''acc'', ''MAX''), (''latency'', ''min'')]"]
        sign_vector_error_iff [of "[(''acc'', ''MAX''), (''latency'', ''MIN'')]"]
  by simp


lemma convert_all_signs: "convert_all objs = Some sv \<Longrightarrow> list_all (\<lambda>s. s = 1 \<or> s = - 1) sv"
  by (induction objs arbitrary: sv rule: convert_all.induct)
     (auto simp: converter_def split: option.splits if_splits)

lemma prepare_sign_vector_signs:
  "prepare_sign_vector objs = Inr sv \<Longrightarrow> list_all (\<lambda>s. s = 1 \<or> s = - 1) sv"
  by (auto simp: prepare_sign_vector_def convert_all_signs split: option.splits)

section \<open>The masking loop\<close>

subsection \<open>Comparisons of floats\<close>

lemma np_lt_trans: "np_lt a b \<Longrightarrow> np_lt b c \<Longrightarrow> np_lt a c"
  by (cases a; cases b; cases c) auto

lemma np_lt_irrefl: "\<not> np_lt a a"
  by (cases a) auto

lemma np_lt_imp_le: "np_lt a b \<Longrightarrow> np_le a b"
  by (cases a; cases b) auto

lemma np_le_iff_not_lt: "a \<noteq> NaN \<Longrightarrow> b \<noteq> NaN \<Longrightarrow> np_le a b \<longleftrightarrow> \<not> np_lt b a"
  by (cases a; cases b) auto

text \<open>
  A row without \<open>nan\<close> survives the comparison with a row \<open>c\<close> without \<open>nan\<close> unless \<open>c\<close>
  is strictly smaller in every column.
\<close>

lemma any_le_iff:
  "length p = length c \<Longrightarrow> nan_free p \<Longrightarrow> nan_free c \<Longrightarrow>
   any_le p c \<longleftrightarrow> \<not> strictly_smaller c p"
  unfolding any_le_def strictly_smaller_def nan_free_def
  by (induction p c rule: list_induct2) (auto simp: np_le_iff_not_lt)

lemma strictly_smaller_trans:
  "strictly_smaller r q \<Longrightarrow> strictly_smaller q p \<Longrightarrow> strictly_smaller r p"
  unfolding strictly_smaller_def
  by (erule (1) list_all2_trans [rotated 1]) (rule np_lt_trans)

lemma strictly_smaller_irrefl: "p \<noteq> [] \<Longrightarrow> \<not> strictly_smaller p p"
  unfolding strictly_smaller_def by (cases p) (auto simp: np_lt_irrefl)

lemma strictly_smaller_dominates:
  "strictly_smaller q p \<Longrightarrow> q \<noteq> [] \<Longrightarrow> dominates q p"
  unfolding strictly_smaller_def dominates_def
  by (cases q; cases p) (auto intro: list_all2_mono np_lt_imp_le)

lemma not_dominates_self: "\<not> dominates p p"
  unfolding dominates_def by (induction p) (auto simp: np_lt_irrefl)

subsection \<open>The loop\<close>

lemma length_prune [simp]: "length m = length a \<Longrightarrow> length (prune a c m) = length a"
  by (simp add: prune_def)

lemma nth_prune:
  "length m = length a \<Longrightarrow> k < length a \<Longrightarrow> prune a c m ! k = (m ! k \<and> any_le (a ! k) c)"
  by (simp add: prune_def)

lemma length_mask_loop [simp]:
  "length m = length a \<Longrightarrow> length (mask_loop a js m) = length a"
  by (induction js arbitrary: m) auto

lemma mask_loop_mono:
  "length m = length a \<Longrightarrow> k < length a \<Longrightarrow> mask_loop a js m ! k \<Longrightarrow> m ! k"
proof (induction js arbitrary: m)
  case Nil
  then show ?case by simp
next
  case (Cons i js)
  let ?m' = "if m ! i then prune a (a ! i) m else m"
  have "length ?m' = length a" using Cons.prems by simp
  from Cons.IH [OF this Cons.prems(2)] Cons.prems(3) have "?m' ! k" by simp
  then show ?case using Cons.prems by (auto simp: nth_prune split: if_splits)
qed

lemma mask_loop_keep:
  "length m = length a \<Longrightarrow> k < length a \<Longrightarrow> m ! k \<Longrightarrow>
   \<forall>i\<in>set js. any_le (a ! k) (a ! i) \<Longrightarrow> mask_loop a js m ! k"
proof (induction js arbitrary: m)
  case Nil
  then show ?case by simp
next
  case (Cons i js)
  let ?m' = "if m ! i then prune a (a ! i) m else m"
  have l: "length ?m' = length a" using Cons.prems by simp
  have "?m' ! k" using Cons.prems by (simp add: nth_prune)
  from Cons.IH [OF l Cons.prems(2) this] Cons.prems(4) show ?case by simp
qed

lemma mask_loop_kill:
  "length m = length a \<Longrightarrow> k < length a \<Longrightarrow> q < length a \<Longrightarrow> q \<in> set js \<Longrightarrow>
   mask_loop a js m ! q \<Longrightarrow> \<not> any_le (a ! k) (a ! q) \<Longrightarrow> \<not> mask_loop a js m ! k"
proof (induction js arbitrary: m)
  case Nil
  then show ?case by simp
next
  case (Cons i js)
  let ?m' = "if m ! i then prune a (a ! i) m else m"
  have l: "length ?m' = length a" using Cons.prems by simp
  have fin: "mask_loop a (i # js) m = mask_loop a js ?m'" by simp
  show ?case
  proof (cases "q = i")
    case True
    have "?m' ! q" using mask_loop_mono [OF l Cons.prems(3)] Cons.prems(5) fin by simp
    then have "m ! i" using True Cons.prems by (auto simp: nth_prune split: if_splits)
    then have "\<not> ?m' ! k" using True Cons.prems by (simp add: nth_prune)
    then show ?thesis using mask_loop_mono [OF l Cons.prems(2)] fin by auto
  next
    case False
    then have "q \<in> set js" using Cons.prems by simp
    from Cons.IH [OF l Cons.prems(2,3) this] Cons.prems(5,6) show ?thesis by simp
  qed
qed


text \<open>A transitive and irreflexive relation has a minimal element in a finite set.\<close>

lemma finite_minimal:
  assumes "finite D" and "D \<noteq> {}"
    and tr: "\<And>x y z. R x y \<Longrightarrow> R y z \<Longrightarrow> R x z" and irr: "\<And>x. \<not> R x x"
  shows "\<exists>m\<in>D. \<forall>x\<in>D. \<not> R x m"
  using assms(1,2)
proof (induction rule: finite_ne_induct)
  case (singleton x)
  then show ?case using irr by simp
next
  case (insert x F)
  then obtain m where m: "m \<in> F" "\<forall>y\<in>F. \<not> R y m" by auto
  show ?case
  proof (cases "R x m")
    case True
    have "\<forall>y\<in>insert x F. \<not> R y x" using m True tr irr by blast
    then show ?thesis by blast
  next
    case False
    then show ?thesis using m by blast
  qed
qed

text \<open>
  On a matrix without \<open>nan\<close> and with at least one column, whatever the order in which
  the indices are visited, an entry of the final mask is set exactly when no row is
  strictly smaller in every column. Among the rows strictly smaller than a given one
  there is one that no row is strictly smaller than; it is never cleared, and its own
  turn clears the given row.
\<close>

lemma mask_loop_char:
  assumes len: "\<forall>row\<in>set a. length row = d" and d: "0 < d"
    and nan: "\<forall>row\<in>set a. nan_free row"
    and js: "set js = {0..<length a}" and k: "k < length a"
  shows "mask_loop a js (replicate (length a) True) ! k \<longleftrightarrow>
         \<not> (\<exists>q<length a. strictly_smaller (a ! q) (a ! k))"
proof -
  let ?m = "replicate (length a) True"
  let ?fin = "mask_loop a js ?m"
  have lm: "length ?m = length a" by simp
  have rows: "\<And>i. i < length a \<Longrightarrow> length (a ! i) = d" using len by simp
  have nf: "\<And>i. i < length a \<Longrightarrow> nan_free (a ! i)" using nan by simp
  have test: "any_le (a ! i) (a ! j) \<longleftrightarrow> \<not> strictly_smaller (a ! j) (a ! i)"
    if "i < length a" "j < length a" for i j
    using that by (intro any_le_iff) (simp_all add: rows nf)
  have keep: "?fin ! j"
    if j: "j < length a" and nd: "\<not> (\<exists>q<length a. strictly_smaller (a ! q) (a ! j))" for j
  proof (rule mask_loop_keep [OF lm j])
    show "?m ! j" using j by simp
    show "\<forall>i\<in>set js. any_le (a ! j) (a ! i)"
    proof
      fix i assume "i \<in> set js"
      then have i: "i < length a" using js by simp
      then show "any_le (a ! j) (a ! i)" using nd j by (simp add: test)
    qed
  qed
  show ?thesis
  proof
    assume fin: "?fin ! k"
    show "\<not> (\<exists>q<length a. strictly_smaller (a ! q) (a ! k))"
    proof
      assume ex: "\<exists>q<length a. strictly_smaller (a ! q) (a ! k)"
      define D where "D = {q. q < length a \<and> strictly_smaller (a ! q) (a ! k)}"
      define R where "R = (\<lambda>x y. x < length a \<and> strictly_smaller (a ! x) (a ! y))"
      have "finite D" "D \<noteq> {}" using ex by (auto simp: D_def)
      moreover have "\<And>x y z. R x y \<Longrightarrow> R y z \<Longrightarrow> R x z"
        unfolding R_def by (auto intro: strictly_smaller_trans)
      moreover have "\<And>x. \<not> R x x"
      proof -
        fix x
        show "\<not> R x x"
        proof (cases "x < length a")
          case True
          then have "a ! x \<noteq> []" using rows [OF True] d by auto
          then show ?thesis unfolding R_def by (simp add: strictly_smaller_irrefl)
        next
          case False
          then show ?thesis by (simp add: R_def)
        qed
      qed
      ultimately obtain q where q: "q \<in> D" and least: "\<forall>x\<in>D. \<not> R x q"
        using finite_minimal [of D R] by blast
      have ql: "q < length a" and qk: "strictly_smaller (a ! q) (a ! k)"
        using q by (auto simp: D_def)
      have "\<not> (\<exists>r<length a. strictly_smaller (a ! r) (a ! q))"
      proof
        assume "\<exists>r<length a. strictly_smaller (a ! r) (a ! q)"
        then obtain r where r: "r < length a" "strictly_smaller (a ! r) (a ! q)" by auto
        then have "r \<in> D" using qk by (auto simp: D_def intro: strictly_smaller_trans)
        moreover have "R r q" using r by (simp add: R_def)
        ultimately show False using least by blast
      qed
      then have "?fin ! q" using keep ql by simp
      moreover have "q \<in> set js" using ql js by simp
      moreover have "\<not> any_le (a ! k) (a ! q)" using qk k ql by (simp add: test)
      ultimately show False using mask_loop_kill [OF lm k ql] fin by blast
    qed
  next
    assume "\<not> (\<exists>q<length a. strictly_smaller (a ! q) (a ! k))"
    then show "?fin ! k" using keep k by simp
  qed
qed

lemma mask_all_rows:
  assumes "\<forall>row\<in>set a. length row = d" "0 < d" "\<forall>row\<in>set a. nan_free row"
    "set js = {0..<length a}"
  shows "filter (\<lambda>i. mask_loop a js (replicate (length a) True) ! i) [0..<length a] =
         strong_dominance_filter a"
proof -
  have irrefl: "\<not> strictly_smaller (a ! k) (a ! k)" if "k < length a" for k
  proof -
    have "length (a ! k) = d" using assms(1) that by simp
    then have "a ! k \<noteq> []" using assms(2) by auto
    then show ?thesis by (rule strictly_smaller_irrefl)
  qed
  have "(\<exists>q<length a. strictly_smaller (a ! q) (a ! k)) \<longleftrightarrow>
        list_ex (\<lambda>q. q \<noteq> k \<and> strictly_smaller (a ! q) (a ! k)) [0..<length a]"
    if "k < length a" for k
    using irrefl [OF that] by (auto simp: list_ex_iff)
  then show ?thesis
    unfolding strong_dominance_filter_def
    by (intro filter_cong refl) (simp add: mask_loop_char [OF assms])
qed

text \<open>
  C9 (as amended). For every matrix of transformed values with at least one objective
  (column) and without NaN, the incremental masking loop returns exactly the indices
  kept by the order-independent filter that keeps a point if and only if no other point
  is strictly smaller in every transformed objective; the same holds when the loop
  visits the indices in any other order.
\<close>

theorem masking_loop_is_strong_dominance_filter:
  assumes "\<forall>row\<in>set a_vals. length row = d" and "0 < d"
    and "\<forall>row\<in>set a_vals. nan_free row"
  shows "efficient_indices a_vals = strong_dominance_filter a_vals \<and>
         (\<forall>js. set js = {0..<length a_vals} \<longrightarrow>
            filter (\<lambda>i. mask_loop a_vals js (replicate (length a_vals) True) ! i)
              [0..<length a_vals] = strong_dominance_filter a_vals)"
  using mask_all_rows [OF assms] mask_all_rows [OF assms, of "[0..<length a_vals]"]
  by (simp add: efficient_indices_def efficient_mask_def)

theorem masking_loop_is_strong_dominance_filter_witness:
  "efficient_indices [[Fin (- 9), Fin 10], [Fin (- 9), Fin 20], [Fin (- 8), NegInf],
                      [Fin (- 7), PosInf]] = [0, 1, 2] \<and>
   strong_dominance_filter [[Fin (- 9), Fin 10], [Fin (- 9), Fin 20], [Fin (- 8), NegInf],
                            [Fin (- 7), PosInf]] = [0, 1, 2] \<and>
   filter (\<lambda>i. mask_loop [[Fin (- 9), Fin 10], [Fin (- 9), Fin 20], [Fin (- 8), NegInf],
                          [Fin (- 7), PosInf]] [3, 1, 0, 2] (replicate 4 True) ! i) [0..<4] =
   [0, 1, 2]"
proof -
  let ?a = "[[Fin (- 9), Fin 10], [Fin (- 9), Fin 20], [Fin (- 8), NegInf], [Fin (- 7), PosInf]]"
  have rows: "\<forall>row\<in>set ?a. length row = 2" by simp
  have pos: "0 < (2::nat)" by simp
  have nan: "\<forall>row\<in>set ?a. nan_free row" by (simp add: nan_free_def)
  have l: "length ?a = 4" by simp
  have s: "strong_dominance_filter ?a = [0, 1, 2]"
    by (simp add: strong_dominance_filter_def strictly_smaller_def upt_rec)
  have js: "set [3, 1, 0, 2 :: nat] = {0..<length ?a}" by auto
  note th = masking_loop_is_strong_dominance_filter [OF rows pos nan]
  have e: "efficient_indices ?a = [0, 1, 2]"
    using th [THEN conjunct1] s by (simp only:)
  have f: "filter (\<lambda>i. mask_loop ?a [3, 1, 0, 2] (replicate 4 True) ! i) [0..<4] = [0, 1, 2]"
    using th [THEN conjunct2, rule_format, OF js, unfolded l] s by (simp only:)
  from e s f show ?thesis by (simp only: simp_thms)
qed

text \<open>
  C9 as stated, for every input, fails in two ways. Without objectives (the objective
  spec \<open>{}\<close> and the history \<open>{"t": [{}]}\<close>) the single row is empty, \<open>np.any\<close> over no
  column is false, and the loop clears the only point, which the order-independent
  filter keeps. With a NaN value every comparison of the value is false: the point of
  the history \<open>{"t": [{"a": nan}]}\<close> clears itself, and for the rows \<open>[nan]\<close> and \<open>[1.0]\<close>
  the result depends on which of the two the loop visits first.
\<close>

theorem masking_loop_counterexample:
  "pareto_indices [(''t'', [Map.empty])] [] = Inr ([([], (''t'', 1))], []) \<and>
   efficient_indices [[]] = [] \<and> strong_dominance_filter [[]] = [0] \<and>
   pareto_indices [(''t'', [[''a'' \<mapsto> NaN]])] [(''a'', ''MIN'')] = Inr ([([NaN], (''t'', 1))], []) \<and>
   efficient_indices [[NaN]] = [] \<and> strong_dominance_filter [[NaN]] = [0] \<and>
   filter (\<lambda>i. mask_loop [[NaN], [Fin 1]] [0, 1] (replicate 2 True) ! i) [0..<2] = [] \<and>
   filter (\<lambda>i. mask_loop [[NaN], [Fin 1]] [1, 0] (replicate 2 True) ! i) [0..<2] = [1]"
  by (simp add: pareto_indices_def prepare_sign_vector_def converter_def np_multiply_def
      multiply_row_def efficient_indices_def efficient_mask_def prune_def any_le_def
      strong_dominance_filter_def strictly_smaller_def upt_rec)

section \<open>The flattened history\<close>

lemma row_of_length: "row_of res_dict objs = Inr vs \<Longrightarrow> length vs = length objs"
  by (induction res_dict objs arbitrary: vs rule: row_of.induct)
     (auto split: option.splits sum.splits)

lemma row_of_values:
  "row_of res_dict objs = Inr vs \<Longrightarrow> map (\<lambda>kv. res_dict (fst kv)) objs = map Some vs"
  by (induction res_dict objs arbitrary: vs rule: row_of.induct)
     (auto split: option.splits sum.splits)

lemma task_points_set:
  "task_points objs task_id s task_res = Inr ps \<Longrightarrow> (row, (t, step)) \<in> set ps \<Longrightarrow>
   t = task_id \<and> s < step \<and> step \<le> s + length task_res \<and>
   row_of (task_res ! (step - 1 - s)) objs = Inr row"
proof (induction objs task_id s task_res arbitrary: ps rule: task_points.induct)
  case (1 objs task_id step)
  then show ?case by simp
next
  case (2 objs task_id s res_dict rest)
  from "2.prems"(1) obtain r qs where r: "row_of res_dict objs = Inr r"
    and qs: "task_points objs task_id (Suc s) rest = Inr qs"
    and ps: "ps = (r, (task_id, s + 1)) # qs"
    by (auto split: sum.splits)
  show ?case
  proof (cases "(row, (t, step)) = (r, (task_id, s + 1))")
    case True
    then show ?thesis using r by simp
  next
    case False
    then have "(row, (t, step)) \<in> set qs" using "2.prems"(2) ps by auto
    from "2.IH" [OF r qs this]
    have *: "t = task_id" "Suc s < step" "step \<le> Suc s + length rest"
      "row_of (rest ! (step - 1 - Suc s)) objs = Inr row" by auto
    from *(2) have "step - 1 - s = Suc (step - 1 - Suc s)" by arith
    with * show ?thesis by simp
  qed
qed

lemma task_points_refs:
  "task_points objs task_id s task_res = Inr ps \<Longrightarrow>
   map snd ps = map (\<lambda>step. (task_id, step)) [s + 1..<s + 1 + length task_res]"
proof (induction objs task_id s task_res arbitrary: ps rule: task_points.induct)
  case (1 objs task_id step)
  then show ?case by simp
next
  case (2 objs task_id s res_dict rest)
  from "2.prems"(1) obtain r qs where r: "row_of res_dict objs = Inr r"
    and qs: "task_points objs task_id (Suc s) rest = Inr qs"
    and ps: "ps = (r, (task_id, s + 1)) # qs"
    by (auto split: sum.splits)
  have "[s + 1..<s + 1 + length (res_dict # rest)] =
        (s + 1) # [Suc s + 1..<Suc s + 1 + length rest]"
    by (simp add: upt_conv_Cons del: upt_Suc)
  with "2.IH" [OF r qs] ps show ?case by (simp del: upt_Suc)
qed

lemma flatten_history_set:
  "flatten_history objs h = Inr pts \<Longrightarrow> (row, (task_id, step)) \<in> set pts \<Longrightarrow>
   \<exists>task_res. (task_id, task_res) \<in> set h \<and> 1 \<le> step \<and> step \<le> length task_res \<and>
     row_of (task_res ! (step - 1)) objs = Inr row"
proof (induction objs h arbitrary: pts rule: flatten_history.induct)
  case (1 objs)
  then show ?case by simp
next
  case (2 objs tid task_res h)
  from "2.prems"(1) obtain ps qs where ps: "task_points objs tid 0 task_res = Inr ps"
    and qs: "flatten_history objs h = Inr qs" and pts: "pts = ps @ qs"
    by (auto split: sum.splits)
  from "2.prems"(2) pts consider "(row, (task_id, step)) \<in> set ps" | "(row, (task_id, step)) \<in> set qs"
    by auto
  then show ?case
  proof cases
    case 1
    from task_points_set [OF ps 1] show ?thesis by auto
  next
    case 2
    from "2.IH" [OF ps qs 2] show ?thesis by auto
  qed
qed

lemma flatten_history_refs:
  "flatten_history objs h = Inr pts \<Longrightarrow>
   map snd pts =
     concat (map (\<lambda>task. map (\<lambda>step. (fst task, step)) [1..<1 + length (snd task)]) h)"
proof (induction objs h arbitrary: pts rule: flatten_history.induct)
  case (1 objs)
  then show ?case by simp
next
  case (2 objs tid task_res h)
  from "2.prems"(1) obtain ps qs where ps: "task_points objs tid 0 task_res = Inr ps"
    and qs: "flatten_history objs h = Inr qs" and pts: "pts = ps @ qs"
    by (auto split: sum.splits)
  from task_points_refs [OF ps] "2.IH" [OF ps qs] pts show ?case by simp
qed

lemma flatten_history_rows:
  "flatten_history objs h = Inr pts \<Longrightarrow> p \<in> set pts \<Longrightarrow> length (fst p) = length objs"
  using flatten_history_set [of objs h pts "fst p" "fst (snd p)" "snd (snd p)"]
  by (auto dest: row_of_length)

lemma flatten_history_no_points:
  "list_all (\<lambda>task. snd task = []) h \<Longrightarrow> flatten_history objs h = Inr []"
  by (induction objs h rule: flatten_history.induct) auto

section \<open>The filter as a whole\<close>

lemma convert_all_length: "convert_all objs = Some sv \<Longrightarrow> length sv = length objs"
  by (induction objs arbitrary: sv rule: convert_all.induct) (auto split: option.splits)

lemma prepare_sign_vector_length:
  "prepare_sign_vector objs = Inr sv \<Longrightarrow> length sv = length objs"
  by (auto simp: prepare_sign_vector_def convert_all_length split: option.splits)

lemma np_times_not_NaN: "x \<noteq> NaN \<Longrightarrow> s \<noteq> 0 \<Longrightarrow> np_times x s \<noteq> NaN"
  by (cases x) auto

lemma nan_free_multiply_row:
  assumes "nan_free row" and "list_all (\<lambda>s. s \<noteq> 0) w"
  shows "nan_free (multiply_row w row)"
proof -
  have "np_times x s \<noteq> NaN" if "(x, s) \<in> set (zip row w)" for x s
  proof -
    from that have "x \<in> set row" "s \<in> set w" by (auto dest: set_zip_leftD set_zip_rightD)
    with assms have "x \<noteq> NaN" "s \<noteq> 0" by (auto simp: nan_free_def list_all_iff)
    then show ?thesis by (rule np_times_not_NaN)
  qed
  then show ?thesis by (auto simp: nan_free_def multiply_row_def list_all_iff)
qed

lemma pareto_indices_Inr:
  assumes "pareto_indices h objs = Inr (pts, indices)"
  shows "\<exists>sv. flatten_history objs h = Inr pts \<and> prepare_sign_vector objs = Inr sv \<and>
           indices = efficient_indices (map (multiply_row (map uminus sv)) (map fst pts))"
  using assms
  by (auto simp: pareto_indices_def np_multiply_def split: sum.splits if_splits)

lemma efficient_indices_char:
  assumes "\<forall>row\<in>set a. length row = d" and "0 < d" and "\<forall>row\<in>set a. nan_free row"
  shows "k \<in> set (efficient_indices a) \<longleftrightarrow>
         k < length a \<and> \<not> (\<exists>q<length a. strictly_smaller (a ! q) (a ! k))"
proof -
  have "set [0..<length a] = {0..<length a}" by simp
  from mask_loop_char [OF assms this] show ?thesis
    by (auto simp: efficient_indices_def efficient_mask_def)
qed

lemma efficient_indices_bound: "k \<in> set (efficient_indices a) \<Longrightarrow> k < length a"
  by (simp add: efficient_indices_def)

lemma efficient_indices_Nil: "efficient_indices [] = []"
  by (simp add: efficient_indices_def)

text \<open>
  With at least one objective and no NaN among the values, a point is retained exactly
  when no point is strictly smaller in every sign-normalised objective.
\<close>

lemma pareto_indices_char:
  assumes pi: "pareto_indices h objs = Inr (pts, indices)"
    and sv: "prepare_sign_vector objs = Inr sv" and ne: "objs \<noteq> []"
    and nf: "list_all (\<lambda>p. nan_free (fst p)) pts" and k: "k < length pts"
  shows "k \<in> set indices \<longleftrightarrow>
         \<not> (\<exists>q<length pts. strictly_smaller (multiply_row (map uminus sv) (fst (pts ! q)))
                                (multiply_row (map uminus sv) (fst (pts ! k))))"
proof -
  let ?a = "map (multiply_row (map uminus sv)) (map fst pts)"
  from pareto_indices_Inr [OF pi] sv have fl: "flatten_history objs h = Inr pts"
    and ind: "indices = efficient_indices ?a" by auto
  have "\<forall>row\<in>set ?a. length row = length objs"
    using flatten_history_rows [OF fl] prepare_sign_vector_length [OF sv]
    by (auto simp: multiply_row_def)
  moreover have "0 < length objs" using ne by simp
  moreover have "\<forall>row\<in>set ?a. nan_free row"
  proof -
    have "list_all (\<lambda>s. s \<noteq> 0) (map uminus sv)"
      using prepare_sign_vector_signs [OF sv] by (auto simp: list_all_iff)
    then show ?thesis using nf by (auto simp: list_all_iff intro: nan_free_multiply_row)
  qed
  ultimately have "k \<in> set (efficient_indices ?a) \<longleftrightarrow>
      k < length ?a \<and> \<not> (\<exists>q<length ?a. strictly_smaller (?a ! q) (?a ! k))"
    by (rule efficient_indices_char)
  then show ?thesis using k ind by simp
qed

lemma retrieve_pareto_front_Inr:
  "pareto_indices h objs = Inr (pts, indices) \<Longrightarrow>
   retrieve_pareto_front h objs = Inr (map (\<lambda>e. front_record_of objs (pts ! e)) indices)"
  by (simp add: retrieve_pareto_front_def)

text \<open>
  C3 (as amended). For every objective spec with at least one objective and every
  history without NaN values on which the filter returns, two points with identical
  objective-value vectors are retained or excluded together (neither is eliminated by
  the other), and both are retained whenever no further point dominates them (is no
  worse in every sign-normalised objective and strictly better in at least one); a
  history of exactly one point yields a front holding that point. The front holds the
  records of the retained indices, in order.
\<close>

theorem tied_points_kept_together:
  assumes pi: "pareto_indices h objs = Inr (pts, indices)"
    and sv: "prepare_sign_vector objs = Inr sign_vector"
    and ne: "objs \<noteq> []"
    and nf: "list_all (\<lambda>p. nan_free (fst p)) pts"
    and i: "i < length pts" and j: "j < length pts"
    and tie: "fst (pts ! i) = fst (pts ! j)"
  shows "(i \<in> set indices \<longleftrightarrow> j \<in> set indices) \<and>
         ((\<forall>q<length pts. q \<noteq> i \<longrightarrow> q \<noteq> j \<longrightarrow>
              \<not> dominates (multiply_row (map uminus sign_vector) (fst (pts ! q)))
                          (multiply_row (map uminus sign_vector) (fst (pts ! i)))) \<longrightarrow>
          i \<in> set indices \<and> j \<in> set indices) \<and>
         (length pts = 1 \<longrightarrow> indices = [0]) \<and>
         retrieve_pareto_front h objs = Inr (map (\<lambda>e. front_record_of objs (pts ! e)) indices)"
proof -
  let ?T = "\<lambda>q. multiply_row (map uminus sign_vector) (fst (pts ! q))"
  note ci = pareto_indices_char [OF pi sv ne nf i]
  note cj = pareto_indices_char [OF pi sv ne nf j]
  from pareto_indices_Inr [OF pi] sv have fl: "flatten_history objs h = Inr pts"
    and ind: "indices = efficient_indices (map (multiply_row (map uminus sign_vector)) (map fst pts))"
    by auto
  have nonempty: "?T q \<noteq> []" if "q < length pts" for q
  proof -
    have "pts ! q \<in> set pts" using that by simp
    from flatten_history_rows [OF fl this] prepare_sign_vector_length [OF sv] ne
    show ?thesis by (auto simp: multiply_row_def)
  qed
  have same: "i \<in> set indices \<longleftrightarrow> j \<in> set indices"
    unfolding ci cj tie ..
  have both: "i \<in> set indices \<and> j \<in> set indices"
    if nd: "\<forall>q<length pts. q \<noteq> i \<longrightarrow> q \<noteq> j \<longrightarrow> \<not> dominates (?T q) (?T i)"
  proof -
    have "\<not> strictly_smaller (?T q) (?T i)" if q: "q < length pts" for q
    proof (cases "q = i \<or> q = j")
      case True
      then have "?T q = ?T i" using tie by auto
      then show ?thesis using strictly_smaller_irrefl [OF nonempty [OF i]] by simp
    next
      case False
      then have "\<not> dominates (?T q) (?T i)" using nd q by simp
      then show ?thesis using strictly_smaller_dominates nonempty [OF q] by blast
    qed
    then have "i \<in> set indices" unfolding ci by blast
    then show ?thesis using same by simp
  qed
  have single: "indices = [0]" if one: "length pts = 1"
  proof -
    have "\<not> strictly_smaller (?T 0) (?T 0)"
      using nonempty [of 0] one by (simp add: strictly_smaller_irrefl)
    then have "0 \<in> set indices"
      using pareto_indices_char [OF pi sv ne nf, of 0] one by simp
    moreover have "\<exists>P. indices = filter P [0]"
      unfolding ind efficient_indices_def using one by auto
    ultimately show ?thesis by (auto split: if_splits)
  qed
  show ?thesis
    using same both single retrieve_pareto_front_Inr [OF pi] by blast
qed

theorem tied_points_kept_together_witness:
  "pareto_indices
     [(''t1'', [[''acc'' \<mapsto> Fin 9, ''latency'' \<mapsto> Fin 10],
                [''acc'' \<mapsto> Fin 9, ''latency'' \<mapsto> Fin 10],
                [''acc'' \<mapsto> Fin 8, ''latency'' \<mapsto> Fin 5]])]
     [(''acc'', ''MAX''), (''latency'', ''MIN'')] =
   Inr ([([Fin 9, Fin 10], (''t1'', 1)), ([Fin 9, Fin 10], (''t1'', 2)),
         ([Fin 8, Fin 5], (''t1'', 3))], [0, 1, 2]) \<and>
   \<not> dominates (multiply_row (map uminus [1, - 1]) [Fin 8, Fin 5])
               (multiply_row (map uminus [1, - 1]) [Fin 9, Fin 10]) \<and>
   (0::nat) \<in> set [0, 1, 2] \<and> (1::nat) \<in> set [0, 1, 2]"
proof -
  let ?h = "[(''t1'', [[''acc'' \<mapsto> Fin 9, ''latency'' \<mapsto> Fin 10],
                       [''acc'' \<mapsto> Fin 9, ''latency'' \<mapsto> Fin 10],
                       [''acc'' \<mapsto> Fin 8, ''latency'' \<mapsto> Fin 5]])]"
  let ?o = "[(''acc'', ''MAX''), (''latency'', ''MIN'')]"
  let ?pts = "[([Fin 9, Fin 10], (''t1'', 1)), ([Fin 9, Fin 10], (''t1'', 2)),
               ([Fin 8, Fin 5], (''t1'', 3::nat))]"
  have pi: "pareto_indices ?h ?o = Inr (?pts, [0, 1, 2])"
    by (simp add: pareto_indices_def prepare_sign_vector_def converter_def np_multiply_def
        multiply_row_def efficient_indices_def efficient_mask_def prune_def any_le_def upt_rec)
  have sv: "prepare_sign_vector ?o = Inr [1, - 1]"
    by (simp add: prepare_sign_vector_def converter_def)
  have ne: "?o \<noteq> []" by simp
  have nf: "list_all (\<lambda>p. nan_free (fst p)) ?pts" by (simp add: nan_free_def)
  have i: "0 < length ?pts" and j: "1 < length ?pts" by simp_all
  have tie: "fst (?pts ! 0) = fst (?pts ! 1)" by simp
  have nd: "\<not> dominates (multiply_row (map uminus [1, - 1]) [Fin 8, Fin 5])
                        (multiply_row (map uminus [1, - 1]) [Fin 9, Fin 10])"
    by (simp add: dominates_def multiply_row_def)
  have all: "\<forall>q<length ?pts. q \<noteq> 0 \<longrightarrow> q \<noteq> 1 \<longrightarrow>
      \<not> dominates (multiply_row (map uminus [1, - 1]) (fst (?pts ! q)))
                  (multiply_row (map uminus [1, - 1]) (fst (?pts ! 0)))"
  proof (intro allI impI)
    fix q assume "q < length ?pts" "q \<noteq> 0" "q \<noteq> 1"
    then have "q = 2" by simp
    then show "\<not> dominates (multiply_row (map uminus [1, - 1]) (fst (?pts ! q)))
                           (multiply_row (map uminus [1, - 1]) (fst (?pts ! 0)))"
      using nd by simp
  qed
  from tied_points_kept_together [OF pi sv ne nf i j tie, THEN conjunct2, THEN conjunct1] all
  have "0 \<in> set [0, 1, 2 :: nat] \<and> 1 \<in> set [0, 1, 2 :: nat]" by blast
  with pi nd show ?thesis by blast
qed

text \<open>
  C3 as stated fails in three ways. With a further point: for the objective
  \<open>{"a": "MIN"}\<close> and the history \<open>{"t": [{"a": 1}, {"a": 1}, {"a": 0}]}\<close> the third point
  dominates the two tied ones, and the front holds the third point only. With a NaN
  value: the only point of \<open>{"t": [{"a": nan}]}\<close> compares false with itself and the front
  is empty. Without objectives: the only point of \<open>{"t": [{}]}\<close> is cleared as well.
\<close>

theorem tied_points_eliminated_counterexample:
  "retrieve_pareto_front
     [(''t'', [[''a'' \<mapsto> Fin 1], [''a'' \<mapsto> Fin 1], [''a'' \<mapsto> Fin 0]])] [(''a'', ''MIN'')] =
   Inr [[(''task_id-ressource'', Ref (''t'', 3)), (''a'', Val (Fin 0))]] \<and>
   retrieve_pareto_front [(''t'', [[''a'' \<mapsto> NaN]])] [(''a'', ''MIN'')] = Inr [] \<and>
   retrieve_pareto_front [(''t'', [Map.empty])] [] = Inr []"
  by (simp add: retrieve_pareto_front_def pareto_indices_def prepare_sign_vector_def
      converter_def np_multiply_def multiply_row_def efficient_indices_def efficient_mask_def
      prune_def any_le_def front_record_of_def upt_rec)

text \<open>
  C1. The claim is that a point survives if and only if no other point dominates it
  (no worse in every objective, strictly better in one), so that a dominated point is
  excluded. The filter does not do this: for the objectives
  \<open>{"acc": "MAX", "latency": "MIN"}\<close> and the history
  \<open>{"t1": [{"acc": 9, "latency": 10}, {"acc": 9, "latency": 20}]}\<close> the first point
  dominates the second (equal accuracy, smaller latency), and the front holds both.
\<close>

theorem dominated_point_is_retained:
  "retrieve_pareto_front
     [(''t1'', [[''acc'' \<mapsto> Fin 9, ''latency'' \<mapsto> Fin 10],
                [''acc'' \<mapsto> Fin 9, ''latency'' \<mapsto> Fin 20]])]
     [(''acc'', ''MAX''), (''latency'', ''MIN'')] =
   Inr [[(''task_id-ressource'', Ref (''t1'', 1)), (''acc'', Val (Fin 9)),
         (''latency'', Val (Fin 10))],
        [(''task_id-ressource'', Ref (''t1'', 2)), (''acc'', Val (Fin 9)),
         (''latency'', Val (Fin 20))]] \<and>
   np_multiply [[Fin 9, Fin 10], [Fin 9, Fin 20]] (map uminus [1, - 1]) =
     Inr [[Fin (- 9), Fin 10], [Fin (- 9), Fin 20]] \<and>
   dominates [Fin (- 9), Fin 10] [Fin (- 9), Fin 20]"
  by (simp add: retrieve_pareto_front_def pareto_indices_def prepare_sign_vector_def
      converter_def np_multiply_def multiply_row_def efficient_indices_def efficient_mask_def
      prune_def any_le_def front_record_of_def dominates_def upt_rec)

text \<open>
  On a history without points the filter returns the empty front when the spec has at
  most one objective, and raises numpy's broadcasting error when it has two or more:
  \<open>np.array([])\<close> has shape \<open>(0,)\<close>, which cannot be multiplied by a sign vector of
  shape \<open>(d,)\<close> with \<open>d \<ge> 2\<close>.
\<close>

lemma empty_history_one_objective:
  assumes "list_all (\<lambda>task. snd task = []) h"
    and "list_all (\<lambda>kv. snd kv = ''MIN'' \<or> snd kv = ''MAX'') objs"
    and "length objs \<le> 1"
  shows "retrieve_pareto_front h objs = Inr []"
proof -
  from assms(2) have "list_all (\<lambda>kv. recognised (snd kv)) objs"
    by (simp add: recognised_def)
  from prepare_sign_vector_recognised [OF this] assms(3) flatten_history_no_points [OF assms(1)]
  show ?thesis
    by (simp add: retrieve_pareto_front_def pareto_indices_def np_multiply_def
        efficient_indices_Nil)
qed

lemma empty_history_more_objectives:
  assumes "list_all (\<lambda>task. snd task = []) h"
    and "list_all (\<lambda>kv. snd kv = ''MIN'' \<or> snd kv = ''MAX'') objs"
    and "2 \<le> length objs"
  shows "retrieve_pareto_front h objs = Inl ValueError_broadcast"
proof -
  from assms(2) have "list_all (\<lambda>kv. recognised (snd kv)) objs"
    by (simp add: recognised_def)
  from prepare_sign_vector_recognised [OF this] assms(3) flatten_history_no_points [OF assms(1)]
  show ?thesis
    by (simp add: retrieve_pareto_front_def pareto_indices_def np_multiply_def)
qed

text \<open>
  C2. The claim is that the filter applied to an empty history returns an empty front
  and does not fail. For the empty history and the objectives
  \<open>{"acc": "MAX", "latency": "MIN"}\<close> the filter raises the broadcasting \<open>ValueError\<close>,
  whereas with the single objective \<open>{"acc": "MAX"}\<close> it returns the empty front.
\<close>

theorem empty_history_two_objectives_raises:
  "retrieve_pareto_front [] [(''acc'', ''MAX''), (''latency'', ''MIN'')] =
     Inl ValueError_broadcast \<and>
   retrieve_pareto_front [] [(''acc'', ''MAX'')] = Inr []"
  by (simp add: retrieve_pareto_front_def pareto_indices_def prepare_sign_vector_def
      converter_def np_multiply_def efficient_indices_Nil)

section \<open>The emitted records\<close>

lemma dict_set_fresh: "k \<notin> fst ` set r \<Longrightarrow> dict_set r k v = r @ [(k, v)]"
  by (induction r) auto

lemma fill_record_fresh:
  "distinct (map fst objs) \<Longrightarrow> fst ` set r \<inter> fst ` set objs = {} \<Longrightarrow>
   i + length objs \<le> length row \<Longrightarrow>
   fill_record r row i objs = r @ zip (map fst objs) (map Val (drop i row))"
proof (induction r row i objs rule: fill_record.induct)
  case (1 r row i)
  then show ?case by simp
next
  case (2 r row i o_name d objs)
  have fresh: "o_name \<notin> fst ` set r" using "2.prems"(2) by auto
  have i: "i < length row" using "2.prems"(3) by simp
  have "fill_record (dict_set r o_name (Val (row ! i))) row (Suc i) objs =
        dict_set r o_name (Val (row ! i)) @ zip (map fst objs) (map Val (drop (Suc i) row))"
  proof (rule "2.IH")
    show "distinct (map fst objs)" using "2.prems"(1) by simp
    show "fst ` set (dict_set r o_name (Val (row ! i))) \<inter> fst ` set objs = {}"
      using "2.prems"(1,2) by (auto simp: dict_set_fresh [OF fresh])
    show "Suc i + length objs \<le> length row" using "2.prems"(3) by simp
  qed
  moreover have "drop i row = row ! i # drop (Suc i) row"
    using i by (simp add: Cons_nth_drop_Suc)
  ultimately show ?case by (simp add: dict_set_fresh [OF fresh])
qed

lemma front_record_of_fresh:
  assumes "distinct (map fst objs)" and "''task_id-ressource'' \<notin> fst ` set objs"
    and "length (fst p) = length objs"
  shows "front_record_of objs p =
         (''task_id-ressource'', Ref (snd p)) # zip (map fst objs) (map Val (fst p))"
  unfolding front_record_of_def
  using fill_record_fresh [OF assms(1), of "[(''task_id-ressource'', Ref (snd p))]" 0 "fst p"]
    assms(2,3)
  by simp

text \<open>
  C8 (as amended). When no objective is named "task_id-ressource", the filter emits
  one record per surviving index, in order; the record holds the key
  "task_id-ressource" mapped to the (task id, step) reference of the point, where step
  is the 1-based position of a record in that task's result sequence, followed by one
  entry per objective, in the order of the objective spec, carrying the value that
  record of the history holds for the objective (the original value, not the
  sign-normalised one).
\<close>

theorem front_records:
  assumes front: "retrieve_pareto_front h objs = Inr front"
    and dist: "distinct (map fst objs)"
    and key: "''task_id-ressource'' \<notin> fst ` set objs"
  shows "(\<exists>pts indices. pareto_indices h objs = Inr (pts, indices) \<and>
            list_all (\<lambda>e. e < length pts) indices \<and>
            front = map (\<lambda>e. (''task_id-ressource'', Ref (snd (pts ! e))) #
                              zip (map fst objs) (map Val (fst (pts ! e)))) indices) \<and>
         list_all (\<lambda>r. \<exists>task_id task_res step row.
                     (task_id, task_res) \<in> set h \<and> 1 \<le> step \<and> step \<le> length task_res \<and>
                     map (\<lambda>kv. (task_res ! (step - 1)) (fst kv)) objs = map Some row \<and>
                     r = (''task_id-ressource'', Ref (task_id, step)) #
                         zip (map fst objs) (map Val row)) front"
proof -
  from front obtain pts indices where pi: "pareto_indices h objs = Inr (pts, indices)"
    and f: "front = map (\<lambda>e. front_record_of objs (pts ! e)) indices"
    by (auto simp: retrieve_pareto_front_def split: sum.splits)
  from pareto_indices_Inr [OF pi] obtain sv where fl: "flatten_history objs h = Inr pts"
    and ind: "indices = efficient_indices (map (multiply_row (map uminus sv)) (map fst pts))"
    by auto
  have bound: "e < length pts" if "e \<in> set indices" for e
  proof -
    from that ind
    have "e \<in> set (efficient_indices (map (multiply_row (map uminus sv)) (map fst pts)))"
      by simp
    from efficient_indices_bound [OF this] show ?thesis by simp
  qed
  have rec: "front_record_of objs (pts ! e) =
      (''task_id-ressource'', Ref (snd (pts ! e))) # zip (map fst objs) (map Val (fst (pts ! e)))"
    if "e \<in> set indices" for e
  proof -
    have "pts ! e \<in> set pts" using bound [OF that] by simp
    from front_record_of_fresh [OF dist key flatten_history_rows [OF fl this]] show ?thesis .
  qed
  have A: "list_all (\<lambda>e. e < length pts) indices" using bound by (simp add: list_all_iff)
  have B: "front = map (\<lambda>e. (''task_id-ressource'', Ref (snd (pts ! e))) #
                              zip (map fst objs) (map Val (fst (pts ! e)))) indices"
    unfolding f using rec by simp
  have C: "\<exists>task_id task_res step row.
             (task_id, task_res) \<in> set h \<and> 1 \<le> step \<and> step \<le> length task_res \<and>
             map (\<lambda>kv. (task_res ! (step - 1)) (fst kv)) objs = map Some row \<and>
             r = (''task_id-ressource'', Ref (task_id, step)) # zip (map fst objs) (map Val row)"
    if "r \<in> set front" for r
  proof -
    from that B obtain e where e: "e \<in> set indices"
      and r: "r = (''task_id-ressource'', Ref (snd (pts ! e))) #
                  zip (map fst objs) (map Val (fst (pts ! e)))" by auto
    obtain row task_id step where p: "pts ! e = (row, (task_id, step))"
      by (cases "pts ! e") auto
    have "(row, (task_id, step)) \<in> set pts" using bound [OF e] p by (metis nth_mem)
    from flatten_history_set [OF fl this] obtain task_res where
      t: "(task_id, task_res) \<in> set h" "1 \<le> step" "step \<le> length task_res"
         "row_of (task_res ! (step - 1)) objs = Inr row" by auto
    from row_of_values [OF t(4)] t(1-3) r p show ?thesis by auto
  qed
  from A B C pi show ?thesis by (simp add: list_all_iff)
qed

theorem front_records_witness:
  "retrieve_pareto_front
     [(''t1'', [[''acc'' \<mapsto> Fin 9, ''latency'' \<mapsto> Fin 10], [''acc'' \<mapsto> Fin 7, ''latency'' \<mapsto> Fin 20]]),
      (''t2'', [[''acc'' \<mapsto> Fin 8, ''latency'' \<mapsto> Fin 5]])]
     [(''acc'', ''MAX''), (''latency'', ''MIN'')] =
   Inr [[(''task_id-ressource'', Ref (''t1'', 1)), (''acc'', Val (Fin 9)), (''latency'', Val (Fin 10))],
        [(''task_id-ressource'', Ref (''t2'', 1)), (''acc'', Val (Fin 8)), (''latency'', Val (Fin 5))]] \<and>
   (\<exists>pts indices.
      pareto_indices
        [(''t1'', [[''acc'' \<mapsto> Fin 9, ''latency'' \<mapsto> Fin 10], [''acc'' \<mapsto> Fin 7, ''latency'' \<mapsto> Fin 20]]),
         (''t2'', [[''acc'' \<mapsto> Fin 8, ''latency'' \<mapsto> Fin 5]])]
        [(''acc'', ''MAX''), (''latency'', ''MIN'')] = Inr (pts, indices) \<and>
      [[(''task_id-ressource'', Ref (''t1'', 1)), (''acc'', Val (Fin 9)), (''latency'', Val (Fin 10))],
       [(''task_id-ressource'', Ref (''t2'', 1)), (''acc'', Val (Fin 8)), (''latency'', Val (Fin 5))]] =
      map (\<lambda>e. (''task_id-ressource'', Ref (snd (pts ! e))) #
                zip [''acc'', ''latency''] (map Val (fst (pts ! e)))) indices)"
proof -
  let ?h = "[(''t1'', [[''acc'' \<mapsto> Fin 9, ''latency'' \<mapsto> Fin 10], [''acc'' \<mapsto> Fin 7, ''latency'' \<mapsto> Fin 20]]),
             (''t2'', [[''acc'' \<mapsto> Fin 8, ''latency'' \<mapsto> Fin 5]])]"
  let ?o = "[(''acc'', ''MAX''), (''latency'', ''MIN'')]"
  have f: "retrieve_pareto_front ?h ?o =
     Inr [[(''task_id-ressource'', Ref (''t1'', 1)), (''acc'', Val (Fin 9)), (''latency'', Val (Fin 10))],
          [(''task_id-ressource'', Ref (''t2'', 1)), (''acc'', Val (Fin 8)), (''latency'', Val (Fin 5))]]"
    by (simp add: retrieve_pareto_front_def pareto_indices_def prepare_sign_vector_def
        converter_def np_multiply_def multiply_row_def efficient_indices_def efficient_mask_def
        prune_def any_le_def front_record_of_def upt_rec)
  have d: "distinct (map fst ?o)" by simp
  have k: "''task_id-ressource'' \<notin> fst ` set ?o" by simp
  from front_records [OF f d k, THEN conjunct1] obtain pts indices
    where "pareto_indices ?h ?o = Inr (pts, indices)"
      and "[[(''task_id-ressource'', Ref (''t1'', 1)), (''acc'', Val (Fin 9)), (''latency'', Val (Fin 10))],
            [(''task_id-ressource'', Ref (''t2'', 1)), (''acc'', Val (Fin 8)), (''latency'', Val (Fin 5))]] =
           map (\<lambda>e. (''task_id-ressource'', Ref (snd (pts ! e))) #
                     zip [''acc'', ''latency''] (map Val (fst (pts ! e)))) indices"
    by auto
  then show ?thesis using f by (intro conjI exI)
qed

text \<open>
  C8 as stated, for every surviving point, fails when an objective bears the reserved
  name: \<open>r[o] = vals[e][i]\<close> then overwrites the reference, and the record maps
  "task_id-ressource" to the objective's value.
\<close>

theorem front_record_key_clash_counterexample:
  "retrieve_pareto_front [(''t'', [[''task_id-ressource'' \<mapsto> Fin 1]])]
     [(''task_id-ressource'', ''MIN'')] = Inr [[(''task_id-ressource'', Val (Fin 1))]]"
  by (simp add: retrieve_pareto_front_def pareto_indices_def prepare_sign_vector_def
      converter_def np_multiply_def multiply_row_def efficient_indices_def efficient_mask_def
      prune_def any_le_def front_record_of_def)

section \<open>The simplex sampler\<close>

lemma sorted_le_last: "sorted ys \<Longrightarrow> x \<in> set ys \<Longrightarrow> x \<le> last (ys :: real list)"
  by (induction ys) auto

lemma last_sort_Max: "xs \<noteq> [] \<Longrightarrow> last (sort xs) = Max (set (xs :: real list))"
proof -
  assume ne: "xs \<noteq> []"
  then have ne': "sort xs \<noteq> []" by (metis length_0_conv length_sort)
  have "last (sort xs) \<in> set (sort xs)" using ne' by (rule last_in_set)
  moreover have "\<forall>x\<in>set (sort xs). x \<le> last (sort xs)"
    using sorted_le_last [OF sorted_sort [of xs]] by blast
  ultimately show ?thesis by (intro Max_eqI [symmetric]) auto
qed

lemma length_np_diff [simp]: "length (np_diff prev xs) = length xs"
  by (induction prev xs rule: np_diff.induct) auto

lemma np_diff_nonneg:
  "sorted (prev # xs) \<Longrightarrow> g \<in> set (np_diff prev xs) \<Longrightarrow> 0 \<le> g"
  by (induction prev xs rule: np_diff.induct) auto

lemma sum_list_np_diff: "sum_list (np_diff prev xs) = last (prev # xs) - prev"
  by (induction prev xs rule: np_diff.induct) auto

lemma sum_list_divide: "sum_list (map (\<lambda>g. g / m) gs) = sum_list gs / (m::real)"
  by (induction gs) (auto simp: add_divide_distrib)

lemma np_diff_zeros: "np_diff 0 (replicate n 0) = replicate n 0"
  by (induction n) auto

lemma foldl_np_add_Fin: "foldl np_add (Fin a) (map Fin s) = Fin (a + sum_list s)"
  by (induction s arbitrary: a) (auto simp: add.assoc)

lemma py_sum_Fin: "py_sum (map Fin s) = Fin (sum_list s)"
  by (simp add: py_sum_def foldl_np_add_Fin)

lemma foldl_np_add_NaN: "foldl np_add NaN xs = NaN"
  by (induction xs) auto

lemma py_sum_NaN: "0 < n \<Longrightarrow> py_sum (replicate n NaN) = NaN"
  by (cases n) (auto simp: py_sum_def foldl_np_add_NaN)

text \<open>
  With draws from \<open>[0, 1)\<close> the largest draw is zero only when every draw is zero; every
  gap is then \<open>0\<close> and every entry of the sample is \<open>0/0\<close>.
\<close>

lemma simplex_sample_zero:
  assumes "draws \<noteq> []" and "\<forall>u\<in>set draws. 0 \<le> u" and "Max (set draws) = 0"
  shows "simplex_sample draws = replicate (length draws) NaN"
proof -
  have "\<forall>u\<in>set draws. u = 0"
  proof
    fix u assume u: "u \<in> set draws"
    then have "u \<le> Max (set draws)" by simp
    with assms(2,3) u show "u = 0" by fastforce
  qed
  then have "\<forall>u\<in>set (sort draws). u = 0" by simp
  then have "replicate (length (sort draws)) 0 = sort draws" by (rule replicate_length_same)
  then have s: "sort draws = replicate (length draws) 0" by simp
  show ?thesis
    by (simp add: simplex_sample_def s np_diff_zeros np_divide_def assms(1))
qed

text \<open>
  With a positive largest draw every entry is a finite quotient; the gaps are not
  negative and add up to the largest draw, so the entries add up to one.
\<close>

lemma simplex_sample_positive:
  assumes "draws \<noteq> []" and "\<forall>u\<in>set draws. 0 \<le> u" and "Max (set draws) \<noteq> 0"
  shows "0 < last (sort draws) \<and>
         (\<exists>s. simplex_sample draws = map Fin s \<and> length s = length draws \<and>
              (\<forall>x\<in>set s. 0 \<le> x) \<and> sum_list s = 1)"
proof -
  let ?uni = "sort draws"
  let ?m = "last ?uni"
  have m: "?m = Max (set draws)" using assms(1) by (rule last_sort_Max)
  have "Max (set draws) \<in> set draws" using assms(1) by simp
  with assms(2,3) have pos: "0 < ?m" unfolding m by fastforce
  let ?s = "map (\<lambda>g. g / ?m) (np_diff 0 ?uni)"
  have ne: "?uni \<noteq> []" using assms(1) by (metis length_0_conv length_sort)
  have sample: "simplex_sample draws = map Fin ?s"
    using pos by (simp add: simplex_sample_def np_divide_def Let_def)
  have srt: "sorted (0 # ?uni)" using assms(2) by simp
  have nonneg: "\<forall>x\<in>set ?s. 0 \<le> x"
    using np_diff_nonneg [OF srt] pos by auto
  have "sum_list ?s = sum_list (np_diff 0 ?uni) / ?m"
    by (rule sum_list_divide)
  also have "\<dots> = 1" using pos ne by (simp add: sum_list_np_diff)
  finally have "sum_list ?s = 1" .
  with sample nonneg pos show ?thesis by (intro conjI exI [of _ ?s]) auto
qed

text \<open>
  C10. For draws from \<open>[0, 1)\<close>: if the largest draw is exactly \<open>0\<close>, the normalisation
  divides by zero, every entry of the computed sample is NaN and the sampler delivers
  no sample (the NaN sum fails the assertion); if the largest draw is positive the
  division is well defined and the postcondition holds: the result has one entry per
  draw, no entry is negative and the entries sum to one.
\<close>

theorem zero_maximum_draw:
  assumes "draws \<noteq> []" and "list_all (\<lambda>u. 0 \<le> u \<and> u < 1) draws"
  shows "(Max (set draws) = 0 \<longrightarrow>
            last (sort draws) = 0 \<and> simplex_sample draws = replicate (length draws) NaN \<and>
            uniform_from_unit_simplex draws = Inl AssertionError) \<and>
         (Max (set draws) \<noteq> 0 \<longrightarrow>
            0 < last (sort draws) \<and>
            (\<exists>s. uniform_from_unit_simplex draws = Inr (map Fin s) \<and>
                 length s = length draws \<and> list_all (\<lambda>x. 0 \<le> x) s \<and> sum_list s = 1))"
proof (intro conjI impI)
  have nn: "\<forall>u\<in>set draws. 0 \<le> u" using assms(2) by (simp add: list_all_iff)
  {
    assume z: "Max (set draws) = 0"
    show "last (sort draws) = 0" using last_sort_Max [OF assms(1)] z by simp
    show s: "simplex_sample draws = replicate (length draws) NaN"
      using simplex_sample_zero [OF assms(1) nn z] .
    show "uniform_from_unit_simplex draws = Inl AssertionError"
      using assms(1) by (simp add: uniform_from_unit_simplex_def s sample_check_def py_sum_NaN)
  }
  {
    assume p: "Max (set draws) \<noteq> 0"
    from simplex_sample_positive [OF assms(1) nn p] obtain s where
      pos: "0 < last (sort draws)" and s: "simplex_sample draws = map Fin s"
      "length s = length draws" "\<forall>x\<in>set s. 0 \<le> x" "sum_list s = 1" by auto
    show "0 < last (sort draws)" by (rule pos)
    have "uniform_from_unit_simplex draws = Inr (map Fin s)"
      using assms(1) s by (simp add: uniform_from_unit_simplex_def sample_check_def py_sum_Fin)
    with s show "\<exists>s. uniform_from_unit_simplex draws = Inr (map Fin s) \<and>
                 length s = length draws \<and> list_all (\<lambda>x. 0 \<le> x) s \<and> sum_list s = 1"
      by (auto simp: list_all_iff)
  }
qed

theorem zero_maximum_draw_witness:
  "simplex_sample [0, 0] = [NaN, NaN] \<and>
   uniform_from_unit_simplex [0, 0] = Inl AssertionError \<and>
   (\<exists>s. uniform_from_unit_simplex [1 / 2, 1 / 4] = Inr (map Fin s) \<and> length s = 2 \<and>
        list_all (\<lambda>x. 0 \<le> x) s \<and> sum_list s = 1)"
proof -
  have a: "[0, 0 :: real] \<noteq> []" "list_all (\<lambda>u. 0 \<le> u \<and> u < 1) [0, 0 :: real]"
    "Max (set [0, 0 :: real]) = 0" by simp_all
  have b: "[1 / 2, 1 / 4 :: real] \<noteq> []" "list_all (\<lambda>u. 0 \<le> u \<and> u < 1) [1 / 2, 1 / 4 :: real]"
    "Max (set [1 / 2, 1 / 4 :: real]) \<noteq> 0" by simp_all
  from zero_maximum_draw [OF a(1,2)] a(3)
  have "simplex_sample [0, 0] = [NaN, NaN]" "uniform_from_unit_simplex [0, 0] = Inl AssertionError"
    by simp_all
  moreover from zero_maximum_draw [OF b(1,2)] b(3)
  have "\<exists>s. uniform_from_unit_simplex [1 / 2, 1 / 4] = Inr (map Fin s) \<and> length s = 2 \<and>
        list_all (\<lambda>x. 0 \<le> x) s \<and> sum_list s = 1" by (simp add: numeral_2_eq_2)
  ultimately show ?thesis by simp
qed

text \<open>
  C7. The claim is that for every positive dimension and every sequence of draws from
  \<open>[0, 1)\<close> the sampler returns a vector, and \<open>[1.0]\<close> in dimension one. The draw
  \<open>0.0\<close> is in \<open>[0, 1)\<close>; in dimension one it gives the sample \<open>[0/0] = [nan]\<close>, and the
  sampler raises \<open>AssertionError\<close> instead of returning \<open>[1.0]\<close>.
\<close>

theorem zero_draw_assertion_error:
  "simplex_sample [0] = [NaN] \<and> uniform_from_unit_simplex [0] = Inl AssertionError"
  by (simp add: uniform_from_unit_simplex_def simplex_sample_def sample_check_def py_sum_def
      np_divide_def)



end
